theory Spec2Isabelle
  imports Main "HOL-Library.Word" "HOL-Library.Multiset"
begin

section \<open>Data model of the scan bench\<close>

text \<open>
  The harness is built for a 64-bit target: \<open>size_t\<close>, \<open>uint64_t\<close> and object
  pointers are 64-bit words, on which \<open>+\<close>, \<open>-\<close> and \<open>*\<close> wrap around as the
  unsigned arithmetic of the source does. A \<open>const byte*\<close> is the address it holds.
\<close>

type_synonym byte = "8 word"
type_synonym size_t = "64 word"
type_synonym ptr = "64 word"

text \<open>The two page protections the harness asks for (\<open>mem::prot_flags\<close>).\<close>

datatype prot_flags = NONE | RW

text \<open>
  The pages obtained from \<open>mem::protect_alloc\<close>, addressed by the distance from the
  base of the allocation: the byte held at each offset and the protection of the page
  it lies in (\<open>None\<close> where nothing is mapped).
\<close>

record pages =
  cells :: "size_t \<Rightarrow> byte"
  access :: "size_t \<Rightarrow> prot_flags option"

text \<open>
  The private members of \<open>struct scan_bench\<close>, in the order of the source, and the
  pages behind \<open>raw_data_'\<close>. A \<open>std::unordered_set<size_t>\<close> is a (finite) set
  of 64-bit words.
\<close>

record 'g scan_bench =
  raw_data_' :: ptr
  raw_size_' :: size_t
  full_data_' :: ptr
  full_size_' :: size_t
  data_' :: ptr
  size_' :: size_t
  seed_' :: "32 word"
  rng_' :: 'g
  pattern_' :: "byte list"
  masks_' :: string
  expected_' :: "size_t set"
  region :: pages

section \<open>Result verification\<close>

text \<open>
  \<open>shift_results\<close>: every returned address minus \<open>data()\<close>, emplaced into a set.
  The pointer difference is converted to \<open>size_t\<close>, so it is taken modulo \<open>2^64\<close>.
\<close>

definition shift_results :: "'g scan_bench \<Rightarrow> ptr list \<Rightarrow> size_t set" where
  "shift_results b results =
     fold (\<lambda>result shifted. insert (result - data_' b) shifted) results {}"

text \<open>
  \<open>check_results\<close>: first the two sizes are compared, then every shifted result is
  looked up in \<open>expected_'\<close>. The scanner argument only feeds the log lines, which
  \<open>LOG_LEVEL = 0\<close> switches off.
\<close>

definition check_results :: "'g scan_bench \<Rightarrow> ptr list \<Rightarrow> bool" where
  "check_results b results =
     (let shifted = shift_results b results in
      if card shifted \<noteq> card (expected_' b) then False
      else if (\<exists>result \<in> shifted. result \<notin> expected_' b) then False
      else True)"

section \<open>Scanner plugins and the ranking\<close>

text \<open>
  What a scanner sees of the memory: the byte at an address, or nothing where the page is
  not accessible.
\<close>

type_synonym memory_view = "ptr \<Rightarrow> byte option"

text \<open>
  A call of \<open>Scan\<close> either returns its vector of addresses or leaves through the
  \<open>catch (...)\<close> of the executor.
\<close>

datatype scan_outcome = Returns "ptr list" | Throws

text \<open>
  Modelled from the spec: \<open>pattern_entry.h\<close>, which declares \<open>pattern_scanner\<close>, is
  not among the sources. A plugin has a name, the operation
  \<open>scan(pattern, mask, data, length)\<close> that \<open>main\<close> calls, and the two counters
  \<open>Elapsed\<close> (cycles, \<open>uint64_t\<close>) and \<open>Failed\<close> that \<open>main\<close> updates.
\<close>

record pattern_scanner =
  GetName :: string
  Scan :: "byte list \<Rightarrow> string \<Rightarrow> memory_view \<Rightarrow> ptr \<Rightarrow> size_t \<Rightarrow> scan_outcome"
  Elapsed :: "64 word"
  Failed :: size_t

text \<open>The comparator handed to \<open>std::sort\<close> at the end of \<open>main\<close>.\<close>

definition compare_scanners :: "pattern_scanner \<Rightarrow> pattern_scanner \<Rightarrow> bool" where
  "compare_scanners lhs rhs =
     (if Failed lhs \<noteq> Failed rhs then Failed lhs < Failed rhs
      else Elapsed lhs < Elapsed rhs)"

text \<open>
  \<open>std::sort\<close> belongs to the standard library. It is represented by an insertion sort
  that consults nothing but the comparator: an element is placed in front of the first
  one it compares less than.
\<close>

fun sort_insert :: "('a \<Rightarrow> 'a \<Rightarrow> bool) \<Rightarrow> 'a \<Rightarrow> 'a list \<Rightarrow> 'a list" where
  "sort_insert cmp x [] = [x]"
| "sort_insert cmp x (y # ys) =
     (if cmp x y then x # y # ys else y # sort_insert cmp x ys)"

definition std_sort :: "('a \<Rightarrow> 'a \<Rightarrow> bool) \<Rightarrow> 'a list \<Rightarrow> 'a list" where
  "std_sort cmp xs = foldr (sort_insert cmp) xs []"

definition sort_patterns :: "pattern_scanner list \<Rightarrow> pattern_scanner list" where
  "sort_patterns PATTERNS = std_sort compare_scanners PATTERNS"

section \<open>Random numbers\<close>

text \<open>
  The engines and distributions of \<open>random\<close> belong to the standard library,
  and the values a distribution draws are implementation-defined. They are a parameter of
  the model: the Mersenne twister built from a seed sequence, a draw of
  \<open>uniform_int_distribution(a, b)\<close> and a draw of \<open>bernoulli_distribution(p)\<close>
  with \<open>p\<close> given as a fraction, each returning the engine it leaves behind.
\<close>

record 'g random_lib =
  mt19937_seed_seq :: "32 word list \<Rightarrow> 'g"
  uniform_int_distribution :: "nat \<Rightarrow> nat \<Rightarrow> 'g \<Rightarrow> nat \<times> 'g"
  bernoulli_distribution :: "nat \<Rightarrow> nat \<Rightarrow> 'g \<Rightarrow> bool \<times> 'g"

text \<open>
  \<open>std::minstd_rand0\<close> is fixed by the language standard: the state is the seed
  modulo \<open>2^31 - 1\<close> (1 if that is 0) and each call multiplies it by 16807 modulo
  \<open>2^31 - 1\<close>. The product stays below \<open>2^46\<close>, so 64-bit words hold it.
\<close>

definition minstd_rand0 :: "32 word \<Rightarrow> 64 word" where
  "minstd_rand0 seed =
     (if ucast seed mod 2147483647 = (0 :: 64 word) then 1 else ucast seed mod 2147483647)"

text \<open>\<open>std::generate\<close> over a vector of \<open>n\<close> unsigned ints, fed by the engine.\<close>

fun generate_source :: "nat \<Rightarrow> 64 word \<Rightarrow> 32 word list" where
  "generate_source 0 x = []"
| "generate_source (Suc n) x =
     (let x' = (16807 * x) mod 2147483647 in ucast x' # generate_source n x')"

text \<open>
  \<open>create_twister\<close>: a zero seed is replaced by a reading of
  \<open>std::random_device\<close> (the argument \<open>entropy\<close>); the seed, which is passed by
  reference, is returned with the engine.
\<close>

definition create_twister :: "'g random_lib \<Rightarrow> 32 word \<Rightarrow> 32 word \<Rightarrow> 'g \<times> 32 word" where
  "create_twister lib entropy seed =
     (let seed = (if seed = 0 then entropy else seed);
          random_data = generate_source 624 (minstd_rand0 seed)
      in (mt19937_seed_seq lib random_data, seed))"

section \<open>Memory\<close>

text \<open>
  A load or store through a pointer that does not hit a read/write page of the
  allocation stops the program; so does a division by zero.
\<close>

datatype fault = Access_violation | Division_by_zero | Bad_alloc

definition peek :: "'g scan_bench \<Rightarrow> memory_view" where
  "peek b p =
     (let at = p - raw_data_' b in
      if access (region b) at = Some RW then Some (cells (region b) at) else None)"

definition poke :: "'g scan_bench \<Rightarrow> ptr \<Rightarrow> byte \<Rightarrow> fault + 'g scan_bench" where
  "poke b p v =
     (let at = p - raw_data_' b in
      if access (region b) at = Some RW
      then Inr (b\<lparr>region := (region b)\<lparr>cells := (cells (region b))(at := v)\<rparr>\<rparr>)
      else Inl Access_violation)"

text \<open>\<open>std::memset\<close> and \<open>std::memcpy\<close>, byte by byte from the lowest address.\<close>

fun memset :: "'g scan_bench \<Rightarrow> ptr \<Rightarrow> byte \<Rightarrow> nat \<Rightarrow> fault + 'g scan_bench" where
  "memset b p v 0 = Inr b"
| "memset b p v (Suc n) =
     (case poke b p v of Inl f \<Rightarrow> Inl f | Inr b' \<Rightarrow> memset b' (p + 1) v n)"

fun memcpy :: "'g scan_bench \<Rightarrow> ptr \<Rightarrow> byte list \<Rightarrow> nat \<Rightarrow> fault + 'g scan_bench" where
  "memcpy b p src 0 = Inr b"
| "memcpy b p [] (Suc n) = Inl Access_violation"
| "memcpy b p (v # src) (Suc n) =
     (case poke b p v of Inl f \<Rightarrow> Inl f | Inr b' \<Rightarrow> memcpy b' (p + 1) src n)"

text \<open>
  \<open>std::generate_n(full_data_, full_size_, ...)\<close> with the lambda of \<open>reset\<close>: one
  draw of \<open>byte_dist(0, 0xFF)\<close> per byte, cast to \<open>byte\<close>.
\<close>

fun generate_n :: "'g random_lib \<Rightarrow> 'g scan_bench \<Rightarrow> ptr \<Rightarrow> nat \<Rightarrow> fault + 'g scan_bench" where
  "generate_n lib b p 0 = Inr b"
| "generate_n lib b p (Suc n) =
     (let (v, g) = uniform_int_distribution lib 0 255 (rng_' b) in
      case poke (b\<lparr>rng_' := g\<rparr>) p (of_nat v) of
        Inl f \<Rightarrow> Inl f
      | Inr b' \<Rightarrow> generate_n lib b' (p + 1) n)"

section \<open>The oracle\<close>

text \<open>
  Modelled from the spec: \<open>FindPatternSimple\<close> is declared in \<open>pattern_entry.h\<close>,
  which is not among the sources. "For every start offset where the pattern could fit,
  compare each fixed-mask position; collect all offsets where all fixed positions match."
  The pattern is as long as its mask; the addresses of the matches are returned in
  ascending order.
\<close>

fun compare_at :: "memory_view \<Rightarrow> ptr \<Rightarrow> (byte \<times> char) list \<Rightarrow> fault + bool" where
  "compare_at mem p [] = Inr True"
| "compare_at mem p ((v, m) # rest) =
     (if m = CHR ''?'' then compare_at mem (p + 1) rest
      else case mem p of
        None \<Rightarrow> Inl Access_violation
      | Some c \<Rightarrow> if c = v then compare_at mem (p + 1) rest else Inr False)"

fun find_from :: "memory_view \<Rightarrow> (byte \<times> char) list \<Rightarrow> nat \<Rightarrow> ptr \<Rightarrow> fault + ptr list" where
  "find_from mem pm 0 p = Inr []"
| "find_from mem pm (Suc n) p =
     (case compare_at mem p pm of
        Inl f \<Rightarrow> Inl f
      | Inr found \<Rightarrow>
          (case find_from mem pm n (p + 1) of
             Inl f \<Rightarrow> Inl f
           | Inr results \<Rightarrow> Inr (if found then p # results else results)))"

definition FindPatternSimple ::
  "memory_view \<Rightarrow> ptr \<Rightarrow> size_t \<Rightarrow> byte list \<Rightarrow> string \<Rightarrow> fault + ptr list" where
  "FindPatternSimple mem data length' pattern masks =
     (if unat length' < length masks then Inr []
      else find_from mem (zip pattern masks) (unat length' - length masks + 1) data)"

section \<open>Scenario generation\<close>

text \<open>\<open>resize\<close> of a vector or string: cut, or padded with value-initialised elements.\<close>

definition resize :: "nat \<Rightarrow> 'a \<Rightarrow> 'a list \<Rightarrow> 'a list" where
  "resize n d xs = take n xs @ replicate (n - length xs) d"

text \<open>
  One pass of the \<open>for\<close> loop inside the \<open>do\<close> ... \<open>while (all_masks)\<close> of
  \<open>generate\<close>, from index \<open>i\<close>: the state is \<open>pattern_\<close>, \<open>masks_\<close>,
  \<open>all_masks\<close> and the engine.
\<close>

function mask_pass ::
  "'g random_lib \<Rightarrow> nat \<Rightarrow> nat \<Rightarrow> byte list \<times> string \<times> bool \<times> 'g
     \<Rightarrow> byte list \<times> string \<times> bool \<times> 'g" where
  "mask_pass lib i pattern_length (pattern, masks, all_masks, g) =
     (if i < pattern_length then
        (let (fixed, g1) = bernoulli_distribution lib 9 10 g in
         if fixed then
           (let (v, g2) = uniform_int_distribution lib 0 255 g1 in
            mask_pass lib (i + 1) pattern_length
              (pattern[i := of_nat v], masks[i := CHR ''x''], False, g2))
         else
           mask_pass lib (i + 1) pattern_length
             (pattern[i := 0], masks[i := CHR ''?''], all_masks, g1))
      else (pattern, masks, all_masks, g))"
  by pat_completeness auto
termination
  by (relation "measure (\<lambda>(lib, i, pattern_length, st). pattern_length - i)") auto

text \<open>
  The \<open>do\<close> ... \<open>while (all_masks)\<close> loop. Nothing bounds the number of passes, so
  the loop is a partial function: \<open>None\<close> stands for a run that never leaves it.
\<close>

partial_function (option) mask_loop ::
  "'g random_lib \<Rightarrow> nat \<Rightarrow> byte list \<times> string \<times> bool \<times> 'g
     \<Rightarrow> (byte list \<times> string \<times> 'g) option" where
  [code]: "mask_loop lib pattern_length st =
     (case mask_pass lib 0 pattern_length st of
        (pattern, masks, all_masks, g) \<Rightarrow>
          if all_masks then mask_loop lib pattern_length (pattern, masks, all_masks, g)
          else Some (pattern, masks, g))"

text \<open>
  The inner loop of the stamping, from index \<open>j\<close>: the pattern byte is stored at
  \<open>data_[offset + j]\<close> unless the mask there is \<open>'?'\<close>.
\<close>

function stamp ::
  "byte list \<Rightarrow> string \<Rightarrow> size_t \<Rightarrow> nat \<Rightarrow> 'g scan_bench \<Rightarrow> fault + 'g scan_bench" where
  "stamp pattern masks offset j b =
     (if j < length pattern then
        (if masks ! j \<noteq> CHR ''?'' then
           (case poke b (data_' b + (offset + of_nat j)) (pattern ! j) of
              Inl f \<Rightarrow> Inl f
            | Inr b' \<Rightarrow> stamp pattern masks offset (j + 1) b')
         else stamp pattern masks offset (j + 1) b)
      else Inr b)"
  by pat_completeness auto
termination
  by (relation "measure (\<lambda>(pattern, masks, offset, j, b). length pattern - j)") auto

text \<open>
  The outer loop, from occurrence \<open>i\<close>: each offset is a draw of
  \<open>range_dist(0, size() - pattern_.size())\<close>, whose upper bound \<open>bound\<close> is fixed
  before the loop.
\<close>

function stamp_all ::
  "'g random_lib \<Rightarrow> nat \<Rightarrow> nat \<Rightarrow> nat \<Rightarrow> 'g scan_bench \<Rightarrow> fault + 'g scan_bench" where
  "stamp_all lib bound i result_count b =
     (if i < result_count then
        (let (offset, g) = uniform_int_distribution lib 0 bound (rng_' b) in
         case stamp (pattern_' b) (masks_' b) (of_nat offset) 0 (b\<lparr>rng_' := g\<rparr>) of
           Inl f \<Rightarrow> Inl f
         | Inr b' \<Rightarrow> stamp_all lib bound (i + 1) result_count b')
      else Inr b)"
  by pat_completeness auto
termination
  by (relation "measure (\<lambda>(lib, bound, i, result_count, b). result_count - i)") auto

text \<open>
  \<open>generate\<close>. The result is \<open>None\<close> when the mask loop never ends, a fault when a
  store or the oracle leaves the accessible pages, and the new state otherwise.
\<close>

definition generate :: "'g random_lib \<Rightarrow> 'g scan_bench \<Rightarrow> (fault + 'g scan_bench) option" where
  "generate lib b =
     (let (variation, g1) = uniform_int_distribution lib 0 100 (rng_' b);
          b1 = b\<lparr>data_' := full_data_' b + of_nat variation,
                 size_' := full_size_' b - of_nat variation\<rparr>;
          (pattern_length, g2) = uniform_int_distribution lib 5 32 g1;
          pattern = resize pattern_length 0 (pattern_' b1);
          masks = resize pattern_length (CHR 0x00) (masks_' b1)
      in case mask_loop lib pattern_length (pattern, masks, True, g2) of
           None \<Rightarrow> None
         | Some (pattern, masks, g3) \<Rightarrow>
             (let (result_count, g4) = uniform_int_distribution lib 2 10 g3;
                  b2 = b1\<lparr>rng_' := g4, pattern_' := pattern, masks_' := masks\<rparr>;
                  bound = unat (size_' b2 - of_nat (length (pattern_' b2)))
              in Some
                (case stamp_all lib bound 0 result_count b2 of
                   Inl f \<Rightarrow> Inl f
                 | Inr b3 \<Rightarrow>
                     (case FindPatternSimple (peek b3) (data_' b3) (size_' b3)
                             (pattern_' b3) (masks_' b3) of
                        Inl f \<Rightarrow> Inl f
                      | Inr results \<Rightarrow> Inr (b3\<lparr>expected_' := shift_results b3 results\<rparr>)))))"

section \<open>The guarded region\<close>

text \<open>
  Modelled from the spec: the \<open>mem\<close> library (\<open>mem::page_size\<close>,
  \<open>mem::protect_alloc\<close>, \<open>mem::protect_modify\<close>, \<open>mem::byte_buffer\<close>) is not
  among the sources. What the platform decides is a parameter: the page size, the address
  \<open>protect_alloc\<close> returns (\<open>None\<close> for a null pointer), whether a byte buffer of a
  given length can be constructed, whether \<open>data()\<close> of an empty buffer is null, and the
  reading of \<open>std::random_device\<close>.
\<close>

record platform =
  mem_page_size :: size_t
  mem_alloc_base :: "ptr option"
  byte_buffer_alloc :: "size_t \<Rightarrow> bool"
  empty_buffer_null :: bool
  random_device :: "32 word"

text \<open>
  Modelled from the spec: "allocate \<open>full_size + 2*page_size\<close> bytes as read/write".
  The fresh pages are zero-filled; a failed allocation maps nothing.
\<close>

definition protect_alloc :: "platform \<Rightarrow> size_t \<Rightarrow> prot_flags \<Rightarrow> ptr \<times> pages" where
  "protect_alloc sys length' flags =
     (case mem_alloc_base sys of
        None \<Rightarrow> (0, \<lparr>cells = (\<lambda>at. 0), access = (\<lambda>at. None)\<rparr>)
      | Some base \<Rightarrow>
          (base, \<lparr>cells = (\<lambda>at. 0),
                  access = (\<lambda>at. if at < length' then Some flags else None)\<rparr>))"

text \<open>
  Modelled from the spec: "set the first and last page to no-access". The protection of
  the mapped bytes from \<open>p\<close> up to \<open>p + length\<close> is replaced; \<open>reset\<close> ignores
  the result of the call.
\<close>

definition protect_modify :: "'g scan_bench \<Rightarrow> ptr \<Rightarrow> size_t \<Rightarrow> prot_flags \<Rightarrow> 'g scan_bench" where
  "protect_modify b p length' flags =
     (let first = p - raw_data_' b in
      b\<lparr>region := (region b)\<lparr>access :=
          (\<lambda>at. if at - first < length' \<and> access (region b) at \<noteq> None
                then Some flags else access (region b) at)\<rparr>\<rparr>)"

text \<open>
  \<open>reset(const byte* region_data, size_t region_size)\<close>: \<open>region_data\<close> is
  \<open>None\<close> for a null pointer and the bytes behind the pointer otherwise. The division
  by the page size is unsigned; dividing by zero stops the program.
\<close>

definition reset ::
  "'g random_lib \<Rightarrow> platform \<Rightarrow> 'g scan_bench \<Rightarrow> byte list option \<Rightarrow> size_t
     \<Rightarrow> fault + 'g scan_bench" where
  "reset lib sys b region_data region_size =
     (let page_size = mem_page_size sys in
      if page_size = 0 then Inl Division_by_zero
      else
        (let b1 = b\<lparr>full_size_' := (region_size + page_size - 1) div page_size * page_size\<rparr>;
             b2 = b1\<lparr>raw_size_' := full_size_' b1 + page_size * 2\<rparr>;
             (raw_data, fresh) = protect_alloc sys (raw_size_' b2) RW;
             b3 = b2\<lparr>raw_data_' := raw_data, region := fresh\<rparr>;
             b4 = b3\<lparr>full_data_' := raw_data_' b3 + page_size\<rparr>;
             b5 = protect_modify b4 (raw_data_' b4) page_size NONE;
             b6 = protect_modify b5 (raw_data_' b5 + raw_size_' b5 - page_size) page_size NONE
         in case region_data of
              Some content \<Rightarrow>
                (let extra = full_size_' b6 - region_size in
                 case memset b6 (full_data_' b6) 0 (unat extra) of
                   Inl f \<Rightarrow> Inl f
                 | Inr b7 \<Rightarrow> memcpy b7 (full_data_' b7 + extra) content (unat region_size))
            | None \<Rightarrow> generate_n lib b6 (full_data_' b6) (unat (full_size_' b6))))"

text \<open>
  What \<open>std::ifstream\<close> finds at a path: nothing it can open, or a file with the length
  that \<open>tellg\<close> reports at its end and the bytes that \<open>read\<close> can deliver.
\<close>

datatype input_file = Cannot_open | Opened size_t "byte list"

text \<open>
  \<open>read_file\<close>. On a stream that failed to open \<open>tellg\<close> returns \<open>-1\<close>, which the
  cast turns into the largest \<open>size_t\<close>, and \<open>read\<close> fails; \<open>read\<close> also fails
  when fewer than \<open>length\<close> bytes arrive. A failed \<open>read\<close> leaves the buffer resized
  to 0.
\<close>

definition read_file :: "platform \<Rightarrow> (string \<Rightarrow> input_file) \<Rightarrow> string \<Rightarrow> fault + byte list" where
  "read_file sys fs path =
     (let length' = (case fs path of Cannot_open \<Rightarrow> - 1 | Opened n bytes \<Rightarrow> n) in
      if \<not> byte_buffer_alloc sys length' then Inl Bad_alloc
      else
        (case fs path of
           Cannot_open \<Rightarrow> Inr []
         | Opened n bytes \<Rightarrow>
             if unat length' \<le> length bytes then Inr (take (unat length') bytes)
             else Inr []))"

text \<open>\<open>reset(const char* file_name)\<close>.\<close>

definition reset_file ::
  "'g random_lib \<Rightarrow> platform \<Rightarrow> (string \<Rightarrow> input_file) \<Rightarrow> 'g scan_bench \<Rightarrow> string
     \<Rightarrow> fault + 'g scan_bench" where
  "reset_file lib sys fs b file_name =
     (case read_file sys fs file_name of
        Inl f \<Rightarrow> Inl f
      | Inr region_data \<Rightarrow>
          reset lib sys b
            (if region_data = [] \<and> empty_buffer_null sys then None else Some region_data)
            (of_nat (length region_data)))"

text \<open>
  The default member initialisers of \<open>scan_bench\<close>. \<open>RNG_SEED\<close> is 0 in the source;
  it is an argument here, so that a build with another seed can be spoken of.
\<close>

definition scan_bench_init :: "'g random_lib \<Rightarrow> platform \<Rightarrow> 32 word \<Rightarrow> 'g scan_bench" where
  "scan_bench_init lib sys RNG_SEED =
     (let (rng, seed) = create_twister lib (random_device sys) RNG_SEED in
      \<lparr>raw_data_' = 0, raw_size_' = 0, full_data_' = 0, full_size_' = 0,
       data_' = 0, size_' = 0, seed_' = seed, rng_' = rng,
       pattern_' = [], masks_' = [], expected_' = {},
       region = \<lparr>cells = (\<lambda>at. 0), access = (\<lambda>at. None)\<rparr>\<rparr>)"

section \<open>The baseline plugin\<close>

text \<open>
  \<open>simple_pattern_scanner\<close> of \<open>baseline.cpp\<close>: the two pointers stand for the
  pattern and the mask they point to.
\<close>

record simple_pattern_scanner =
  CurrentPattern :: "byte list"
  CurrentMask :: string

definition simple_GetName :: string where
  "simple_GetName = ''Simple''"

definition simple_Init ::
  "simple_pattern_scanner \<Rightarrow> byte list \<Rightarrow> string \<Rightarrow> simple_pattern_scanner" where
  "simple_Init s pattern mask' = s\<lparr>CurrentPattern := pattern, CurrentMask := mask'\<rparr>"

definition simple_Scan ::
  "simple_pattern_scanner \<Rightarrow> memory_view \<Rightarrow> ptr \<Rightarrow> size_t \<Rightarrow> fault + ptr list" where
  "simple_Scan s mem data length' =
     FindPatternSimple mem data length' (CurrentPattern s) (CurrentMask s)"

text \<open>
  Modelled from the spec: \<open>REGISTER_PATTERN\<close> and the base class are in
  \<open>pattern_entry.h\<close>, which is not among the sources. The registered plugin answers
  \<open>scan(pattern, mask, data, length)\<close> by \<open>Init\<close> followed by \<open>Scan\<close>; a fault
  inside the scan reaches the executor's \<open>catch\<close>.
\<close>

definition Simple :: pattern_scanner where
  "Simple =
     \<lparr>GetName = simple_GetName,
      Scan = (\<lambda>pattern mask' mem data length'.
        case simple_Scan
               (simple_Init \<lparr>CurrentPattern = [], CurrentMask = []\<rparr> pattern mask')
               mem data length' of
          Inl f \<Rightarrow> Throws
        | Inr results \<Rightarrow> Returns results),
      Elapsed = 0, Failed = 0\<rparr>"

section \<open>The executor\<close>

definition REGION_SIZE :: size_t where
  "REGION_SIZE = 64 * 1024 * 1024"

definition TEST_COUNT :: nat where
  "TEST_COUNT = 512"

text \<open>
  The body of the loop over \<open>PATTERNS\<close> in \<open>main\<close>, for one scanner, between the
  two readings of \<open>mem::rdtsc\<close>.
\<close>

definition run_scanner ::
  "'g scan_bench \<Rightarrow> 64 word \<Rightarrow> 64 word \<Rightarrow> pattern_scanner \<Rightarrow> pattern_scanner" where
  "run_scanner reg start_clock end_clock pattern =
     (let pattern1 =
        (case Scan pattern (pattern_' reg) (masks_' reg) (peek reg) (data_' reg) (size_' reg) of
           Returns results \<Rightarrow>
             if \<not> check_results reg results
             then pattern\<lparr>Failed := Failed pattern + 1\<rparr> else pattern
         | Throws \<Rightarrow> pattern\<lparr>Failed := Failed pattern + 1\<rparr>)
      in pattern1\<lparr>Elapsed := Elapsed pattern1 + (end_clock - start_clock)\<rparr>)"

text \<open>
  The loop over \<open>PATTERNS\<close>. The cycle counter is the sequence \<open>rdtsc\<close> of its
  readings; \<open>k\<close> counts the readings taken so far.
\<close>

fun run_scanners ::
  "(nat \<Rightarrow> 64 word) \<Rightarrow> nat \<Rightarrow> 'g scan_bench \<Rightarrow> pattern_scanner list
     \<Rightarrow> pattern_scanner list \<times> nat" where
  "run_scanners rdtsc k reg [] = ([], k)"
| "run_scanners rdtsc k reg (pattern # rest) =
     (let pattern' = run_scanner reg (rdtsc k) (rdtsc (k + 1)) pattern;
          (rest', k') = run_scanners rdtsc (k + 2) reg rest
      in (pattern' # rest', k'))"

text \<open>The loop over the tests, by the number of tests still to run.\<close>

fun tests ::
  "'g random_lib \<Rightarrow> (nat \<Rightarrow> 64 word) \<Rightarrow> nat \<Rightarrow> 'g scan_bench \<times> pattern_scanner list \<times> nat
     \<Rightarrow> (fault + 'g scan_bench \<times> pattern_scanner list \<times> nat) option" where
  "tests lib rdtsc 0 st = Some (Inr st)"
| "tests lib rdtsc (Suc n) (reg, PATTERNS, k) =
     (case generate lib reg of
        None \<Rightarrow> None
      | Some (Inl f) \<Rightarrow> Some (Inl f)
      | Some (Inr reg') \<Rightarrow>
          (let (PATTERNS', k') = run_scanners rdtsc k reg' PATTERNS in
           tests lib rdtsc n (reg', PATTERNS', k')))"

text \<open>
  \<open>main\<close>, up to the sorted \<open>PATTERNS\<close> that the report prints. \<open>argv\<close> includes
  the program name.
\<close>

definition main ::
  "'g random_lib \<Rightarrow> platform \<Rightarrow> (string \<Rightarrow> input_file) \<Rightarrow> (nat \<Rightarrow> 64 word) \<Rightarrow> 32 word
     \<Rightarrow> string list \<Rightarrow> pattern_scanner list \<Rightarrow> (fault + pattern_scanner list) option" where
  "main lib sys fs rdtsc RNG_SEED argv PATTERNS =
     (let reg = scan_bench_init lib sys RNG_SEED in
      case (if length argv > 1 then reset_file lib sys fs reg (argv ! 1)
            else reset lib sys reg None REGION_SIZE) of
        Inl f \<Rightarrow> Some (Inl f)
      | Inr reg1 \<Rightarrow>
          (case tests lib rdtsc TEST_COUNT (reg1, PATTERNS, 0) of
             None \<Rightarrow> None
           | Some (Inl f) \<Rightarrow> Some (Inl f)
           | Some (Inr (reg2, PATTERNS', k)) \<Rightarrow> Some (Inr (sort_patterns PATTERNS'))))"

text \<open>
  An engine for running the model on small inputs: the draws are read off a list (the
  seed sequence reduced to bytes), a uniform draw reduced into its range, a Bernoulli
  draw compared with the numerator.
\<close>

definition scripted :: "nat list random_lib" where
  "scripted =
     \<lparr>mt19937_seed_seq = map (\<lambda>w. unat (w mod 256)),
      uniform_int_distribution = (\<lambda>a b g.
        case g of [] \<Rightarrow> (a, []) | x # xs \<Rightarrow> (a + x mod (b - a + 1), xs)),
      bernoulli_distribution = (\<lambda>n d g.
        case g of [] \<Rightarrow> (True, []) | x # xs \<Rightarrow> (x mod d < n, xs))\<rparr>"

section \<open>Predicates used in the statements\<close>

text \<open>
  A pattern of \<open>n\<close> bytes with its mask: every position is fixed (\<open>'x'\<close>) or a
  wildcard (\<open>'?'\<close>) with byte 0, and at least one is fixed.
\<close>

definition well_masked :: "nat \<Rightarrow> byte list \<Rightarrow> string \<Rightarrow> bool" where
  "well_masked n pat msk \<longleftrightarrow>
     length pat = n \<and> length msk = n \<and> (\<exists>i<n. msk ! i = CHR ''x'') \<and>
     (\<forall>i<n. msk ! i = CHR ''x'' \<or> (msk ! i = CHR ''?'' \<and> pat ! i = 0))"


text \<open>
  Two states of the bench agree on everything but the bytes of the region and the
  engine.
\<close>

definition same_fields :: "'g scan_bench \<Rightarrow> 'g scan_bench \<Rightarrow> bool" where
  "same_fields b b' \<longleftrightarrow>
     raw_data_' b' = raw_data_' b \<and> raw_size_' b' = raw_size_' b \<and>
     full_data_' b' = full_data_' b \<and> full_size_' b' = full_size_' b \<and>
     data_' b' = data_' b \<and> size_' b' = size_' b \<and> seed_' b' = seed_' b \<and>
     pattern_' b' = pattern_' b \<and> masks_' b' = masks_' b \<and>
     expected_' b' = expected_' b \<and> access (region b') = access (region b)"


text \<open>
  A bench with pages of 8 bytes and a usable region of 24 bytes of zeros at offset 8,
  for running the model; the engine is the list of draws.
\<close>

definition small_bench :: "nat list \<Rightarrow> nat list scan_bench" where
  "small_bench draws =
      \<lparr>raw_data_' = 4096, raw_size_' = 40, full_data_' = 4104, full_size_' = 24,
       data_' = 0, size_' = 0, seed_' = 5, rng_' = draws,
       pattern_' = [], masks_' = [], expected_' = {},
       region = \<lparr>cells = (\<lambda>at. 0), access = (\<lambda>at. if 8 \<le> at \<and> at < 32 then Some RW
                             else if at < 40 then Some NONE else None)\<rparr>\<rparr>"


declare mask_pass.simps [simp del] stamp.simps [simp del] stamp_all.simps [simp del]

section \<open>Verification of the results\<close>

lemma shift_results_fold:
  "fold (\<lambda>result shifted. insert (result - d) shifted) results acc
     = (\<lambda>result. result - d) ` set results \<union> acc"
  by (induction results arbitrary: acc) auto

lemma shift_results_image:
  "shift_results b results = (\<lambda>result. result - data_' b) ` set results"
  by (simp add: shift_results_def shift_results_fold)

text \<open>
  C1. The verifier reports success exactly when the set of relative offsets (each
  returned address minus the base of the window) is the expected set.
\<close>

theorem check_results_iff_equal_sets:
  "check_results b results \<longleftrightarrow> (\<lambda>result. result - data_' b) ` set results = expected_' b"
proof -
  let ?shifted = "(\<lambda>result. result - data_' b) ` set results"
  have fin: "finite (expected_' b)" by simp
  have "(card ?shifted = card (expected_' b) \<and> ?shifted \<subseteq> expected_' b)
          \<longleftrightarrow> ?shifted = expected_' b"
    using card_subset_eq [OF fin, of ?shifted] by auto
  then show ?thesis
    by (auto simp: check_results_def shift_results_image Let_def)
qed

theorem check_results_iff_equal_sets_witness:
  "check_results \<lparr>raw_data_' = 0, raw_size_' = 0, full_data_' = 16, full_size_' = 0,
       data_' = 20, size_' = 0, seed_' = 1, rng_' = (), pattern_' = [], masks_' = [],
       expected_' = {0, 4, 8}, region = \<lparr>cells = \<lambda>_. 0, access = \<lambda>_. None\<rparr>\<rparr>
     [28, 20, 24, 20]
   \<and> (\<lambda>result. result - 20) ` set [28, 20, 24, 20 :: ptr] = {0, 4, 8}"
  using check_results_iff_equal_sets
    [of "\<lparr>raw_data_' = 0, raw_size_' = 0, full_data_' = 16, full_size_' = 0,
       data_' = 20, size_' = 0, seed_' = 1, rng_' = (), pattern_' = [], masks_' = [],
       expected_' = {0, 4, 8}, region = \<lparr>cells = \<lambda>_. 0, access = \<lambda>_. None\<rparr>\<rparr>"
     "[28, 20, 24, 20]"]
  by auto

section \<open>The ranking\<close>

lemma mset_sort_insert: "mset (sort_insert cmp x ys) = add_mset x (mset ys)"
  by (induction ys) auto

lemma set_sort_insert: "set (sort_insert cmp x ys) = insert x (set ys)"
  by (induction ys) auto

lemma mset_std_sort: "mset (std_sort cmp xs) = mset xs"
  by (induction xs) (auto simp: std_sort_def mset_sort_insert)

lemma sorted_sort_insert:
  assumes asym: "\<And>a b. cmp a b \<Longrightarrow> \<not> cmp b a"
    and ntrans: "\<And>a b c. \<not> cmp b a \<Longrightarrow> \<not> cmp c b \<Longrightarrow> \<not> cmp c a"
  shows "sorted_wrt (\<lambda>a b. \<not> cmp b a) ys
           \<Longrightarrow> sorted_wrt (\<lambda>a b. \<not> cmp b a) (sort_insert cmp x ys)"
proof (induction ys)
  case Nil
  then show ?case by simp
next
  case (Cons y ys)
  show ?case
  proof (cases "cmp x y")
    case True
    then have "\<not> cmp y x" by (rule asym)
    moreover have "\<forall>z \<in> set ys. \<not> cmp z x"
      using Cons.prems \<open>\<not> cmp y x\<close> ntrans by auto
    ultimately show ?thesis using True Cons.prems by simp
  next
    case False
    then show ?thesis using Cons by (auto simp: set_sort_insert)
  qed
qed

lemma sorted_std_sort:
  assumes "\<And>a b. cmp a b \<Longrightarrow> \<not> cmp b a"
    and "\<And>a b c. \<not> cmp b a \<Longrightarrow> \<not> cmp c b \<Longrightarrow> \<not> cmp c a"
  shows "sorted_wrt (\<lambda>a b. \<not> cmp b a) (std_sort cmp xs)"
proof (induction xs)
  case Nil
  then show ?case by (simp add: std_sort_def)
next
  case (Cons x xs)
  have "std_sort cmp (x # xs) = sort_insert cmp x (std_sort cmp xs)"
    by (simp add: std_sort_def)
  then show ?case using sorted_sort_insert [of cmp, OF assms] Cons by simp
qed

lemma compare_scanners_asym: "compare_scanners a b \<Longrightarrow> \<not> compare_scanners b a"
  by (auto simp: compare_scanners_def split: if_splits)

lemma compare_scanners_negtrans:
  "\<not> compare_scanners b a \<Longrightarrow> \<not> compare_scanners c b \<Longrightarrow> \<not> compare_scanners c a"
  by (auto simp: compare_scanners_def split: if_splits)

lemma sorted_sort_patterns:
  "sorted_wrt (\<lambda>a b. \<not> compare_scanners b a) (sort_patterns PATTERNS)"
  unfolding sort_patterns_def
  by (rule sorted_std_sort) (auto dest: compare_scanners_asym compare_scanners_negtrans)

text \<open>
  C2. The final ranking is a rearrangement of the scanners in which fewer failures come
  first whatever the cycles, and among equal failure counts fewer cycles come first: a
  scanner that beats another on these keys stands at a smaller index.
\<close>

theorem sort_patterns_ranking:
  "mset (sort_patterns PATTERNS) = mset PATTERNS \<and>
   (\<forall>i j. i < length PATTERNS \<and> j < length PATTERNS \<longrightarrow>
      (Failed (sort_patterns PATTERNS ! i) < Failed (sort_patterns PATTERNS ! j) \<longrightarrow> i < j) \<and>
      (Failed (sort_patterns PATTERNS ! i) = Failed (sort_patterns PATTERNS ! j) \<and>
       Elapsed (sort_patterns PATTERNS ! i) < Elapsed (sort_patterns PATTERNS ! j) \<longrightarrow> i < j))"
proof -
  let ?ys = "sort_patterns PATTERNS"
  have perm: "mset ?ys = mset PATTERNS"
    by (simp add: sort_patterns_def mset_std_sort)
  then have len: "length ?ys = length PATTERNS"
    by (metis size_mset)
  have ord: "\<not> compare_scanners (?ys ! j) (?ys ! i)" if "i < j" "j < length ?ys" for i j
    using sorted_sort_patterns [of PATTERNS] that by (simp add: sorted_wrt_iff_nth_less)
  have key: "i < j"
    if "i < length ?ys" "j < length ?ys" "compare_scanners (?ys ! i) (?ys ! j)" for i j
  proof (rule ccontr)
    assume "\<not> i < j"
    then consider "i = j" | "j < i" by linarith
    then show False
    proof cases
      case 1
      then show ?thesis using that(3) compare_scanners_asym by blast
    next
      case 2
      then show ?thesis using ord [of j i] that by simp
    qed
  qed
  show ?thesis
  proof (intro conjI allI impI)
    show "mset ?ys = mset PATTERNS" by (rule perm)
  next
    fix i j
    assume b: "i < length PATTERNS \<and> j < length PATTERNS"
      and "Failed (?ys ! i) < Failed (?ys ! j)"
    then have "compare_scanners (?ys ! i) (?ys ! j)"
      by (auto simp: compare_scanners_def)
    then show "i < j" using b len key by simp
  next
    fix i j
    assume b: "i < length PATTERNS \<and> j < length PATTERNS"
      and "Failed (?ys ! i) = Failed (?ys ! j) \<and> Elapsed (?ys ! i) < Elapsed (?ys ! j)"
    then have "compare_scanners (?ys ! i) (?ys ! j)"
      by (auto simp: compare_scanners_def)
    then show "i < j" using b len key by simp
  qed
qed

theorem sort_patterns_ranking_witness:
  "map GetName (sort_patterns
     [\<lparr>GetName = ''fast'', Scan = (\<lambda>p m v d n. Throws), Elapsed = 10, Failed = 1\<rparr>,
      \<lparr>GetName = ''slow'', Scan = (\<lambda>p m v d n. Returns []), Elapsed = 900, Failed = 0\<rparr>,
      \<lparr>GetName = ''good'', Scan = (\<lambda>p m v d n. Returns []), Elapsed = 500, Failed = 0\<rparr>])
   = [''good'', ''slow'', ''fast'']
   \<and> mset (sort_patterns
     [\<lparr>GetName = ''fast'', Scan = (\<lambda>p m v d n. Throws), Elapsed = 10, Failed = 1\<rparr>,
      \<lparr>GetName = ''slow'', Scan = (\<lambda>p m v d n. Returns []), Elapsed = 900, Failed = 0\<rparr>,
      \<lparr>GetName = ''good'', Scan = (\<lambda>p m v d n. Returns []), Elapsed = 500, Failed = 0\<rparr>])
   = mset
     [\<lparr>GetName = ''fast'', Scan = (\<lambda>p m v d n. Throws), Elapsed = 10, Failed = 1\<rparr>,
      \<lparr>GetName = ''slow'', Scan = (\<lambda>p m v d n. Returns []), Elapsed = 900, Failed = 0\<rparr>,
      \<lparr>GetName = ''good'', Scan = (\<lambda>p m v d n. Returns []), Elapsed = 500, Failed = 0\<rparr>]"
proof -
  let ?L = "[\<lparr>GetName = ''fast'', Scan = (\<lambda>p m v d n. Throws), Elapsed = 10, Failed = 1\<rparr>,
      \<lparr>GetName = ''slow'', Scan = (\<lambda>p m v d n. Returns []), Elapsed = 900, Failed = 0\<rparr>,
      \<lparr>GetName = ''good'', Scan = (\<lambda>p m v d n. Returns []), Elapsed = 500, Failed = 0\<rparr>]"
  have "map GetName (sort_patterns ?L) = [''good'', ''slow'', ''fast'']"
    by (simp add: sort_patterns_def std_sort_def compare_scanners_def)
  moreover have "mset (sort_patterns ?L) = mset ?L"
    using sort_patterns_ranking [of ?L] by (rule conjunct1)
  ultimately show ?thesis by (rule conjI)
qed

section \<open>The mask loop\<close>

lemma mask_pass_props:
  "mask_pass lib i n (pat, msk, all, g) = (pat', msk', all', g') \<Longrightarrow>
   length pat = n \<Longrightarrow> length msk = n \<Longrightarrow>
   length pat' = n \<and> length msk' = n \<and>
   (\<forall>j<i. pat' ! j = pat ! j \<and> msk' ! j = msk ! j) \<and>
   (\<forall>j. i \<le> j \<and> j < n \<longrightarrow>
      (msk' ! j = CHR ''x'' \<or> (msk' ! j = CHR ''?'' \<and> pat' ! j = 0))) \<and>
   (all' \<longleftrightarrow> all \<and> (\<forall>j. i \<le> j \<and> j < n \<longrightarrow> msk' ! j = CHR ''?''))"
proof (induction "n - i" arbitrary: i pat msk all g)
  case 0
  then show ?case by (subst (asm) mask_pass.simps) auto
next
  case (Suc k)
  then have lt: "i < n" and k: "k = n - (i + 1)" by linarith+
  obtain fixed g1 where b: "bernoulli_distribution lib 9 10 g = (fixed, g1)"
    by (cases "bernoulli_distribution lib 9 10 g")
  obtain v g2 where u: "uniform_int_distribution lib 0 255 g1 = (v, g2)"
    by (cases "uniform_int_distribution lib 0 255 g1")
  show ?case
  proof (cases fixed)
    case True
    then have step: "mask_pass lib (i + 1) n (pat[i := of_nat v], msk[i := CHR ''x''], False, g2)
        = (pat', msk', all', g')"
      using Suc.prems(1) lt b u by (subst (asm) mask_pass.simps) simp
    have ih: "length pat' = n \<and> length msk' = n \<and>
      (\<forall>j<i + 1. pat' ! j = pat[i := of_nat v] ! j \<and> msk' ! j = msk[i := CHR ''x''] ! j) \<and>
      (\<forall>j. i + 1 \<le> j \<and> j < n \<longrightarrow>
        (msk' ! j = CHR ''x'' \<or> (msk' ! j = CHR ''?'' \<and> pat' ! j = 0))) \<and>
      (all' \<longleftrightarrow> False \<and> (\<forall>j. i + 1 \<le> j \<and> j < n \<longrightarrow> msk' ! j = CHR ''?''))"
      using Suc.hyps(1) [OF k step] Suc.prems(2,3) by simp
    then have at_i: "msk' ! i = CHR ''x''" using lt Suc.prems(3) by simp
    have old: "\<forall>j<i. pat' ! j = pat ! j \<and> msk' ! j = msk ! j"
      using ih by (metis less_Suc_eq nat_neq_iff nth_list_update_neq Suc_eq_plus1)
    have new: "\<forall>j. i \<le> j \<and> j < n \<longrightarrow>
        (msk' ! j = CHR ''x'' \<or> (msk' ! j = CHR ''?'' \<and> pat' ! j = 0))"
      using ih at_i by (metis Suc_eq_plus1 Suc_leI le_neq_implies_less)
    have "\<not> (\<forall>j. i \<le> j \<and> j < n \<longrightarrow> msk' ! j = CHR ''?'')"
      using at_i lt by auto
    then show ?thesis using ih old new by simp
  next
    case False
    then have step: "mask_pass lib (i + 1) n (pat[i := 0], msk[i := CHR ''?''], all, g1)
        = (pat', msk', all', g')"
      using Suc.prems(1) lt b by (subst (asm) mask_pass.simps) simp
    have ih: "length pat' = n \<and> length msk' = n \<and>
      (\<forall>j<i + 1. pat' ! j = pat[i := 0] ! j \<and> msk' ! j = msk[i := CHR ''?''] ! j) \<and>
      (\<forall>j. i + 1 \<le> j \<and> j < n \<longrightarrow>
        (msk' ! j = CHR ''x'' \<or> (msk' ! j = CHR ''?'' \<and> pat' ! j = 0))) \<and>
      (all' \<longleftrightarrow> all \<and> (\<forall>j. i + 1 \<le> j \<and> j < n \<longrightarrow> msk' ! j = CHR ''?''))"
      using Suc.hyps(1) [OF k step] Suc.prems(2,3) by simp
    then have at_i: "msk' ! i = CHR ''?''" "pat' ! i = 0" using lt Suc.prems(2,3) by simp_all
    have old: "\<forall>j<i. pat' ! j = pat ! j \<and> msk' ! j = msk ! j"
      using ih by (metis less_Suc_eq nat_neq_iff nth_list_update_neq Suc_eq_plus1)
    have new: "\<forall>j. i \<le> j \<and> j < n \<longrightarrow>
        (msk' ! j = CHR ''x'' \<or> (msk' ! j = CHR ''?'' \<and> pat' ! j = 0))"
      using ih at_i by (metis Suc_eq_plus1 Suc_leI le_neq_implies_less)
    have allq: "(\<forall>j. i \<le> j \<and> j < n \<longrightarrow> msk' ! j = CHR ''?'')
        \<longleftrightarrow> (\<forall>j. i + 1 \<le> j \<and> j < n \<longrightarrow> msk' ! j = CHR ''?'')"
      using at_i by (metis Suc_eq_plus1 Suc_leI le_neq_implies_less add_leD1)
    show ?thesis using ih old new allq by simp
  qed
qed

lemma mask_loop_well_masked:
  assumes run: "mask_loop lib n st = Some out"
    and "length (fst st) = n" and "length (fst (snd st)) = n" and "fst (snd (snd st))"
  shows "well_masked n (fst out) (fst (snd out))"
  using assms(2-)
proof (induction lib n st out rule: mask_loop.raw_induct)
  case (1 loop lib n st out)
  obtain pat msk all g where st: "st = (pat, msk, all, g)" by (cases st) auto
  obtain pat1 msk1 all1 g1 where pass: "mask_pass lib 0 n (pat, msk, all, g) = (pat1, msk1, all1, g1)"
    by (cases "mask_pass lib 0 n (pat, msk, all, g)") auto
  have len: "length pat = n" "length msk = n" and all: all using "1.prems" st by auto
  note props = mask_pass_props [OF pass len]
  show ?case
  proof (cases all1)
    case True
    then have "loop lib n (pat1, msk1, all1, g1) = Some out" using "1.hyps" st pass by simp
    then show ?thesis using "1.IH" props True by simp
  next
    case False
    then have out: "out = (pat1, msk1, g1)" using "1.hyps" st pass by simp
    from False props all obtain j where "j < n" "msk1 ! j \<noteq> CHR ''?''" by auto
    then have "\<exists>i<n. msk1 ! i = CHR ''x''" using props by auto
    then show ?thesis using props out by (simp add: well_masked_def)
  qed
qed fact

section \<open>Stamping\<close>

lemma poke_Inr_iff:
  "poke b p v = Inr b' \<longleftrightarrow>
     access (region b) (p - raw_data_' b) = Some RW \<and>
     b' = b\<lparr>region := (region b)\<lparr>cells := (cells (region b))(p - raw_data_' b := v)\<rparr>\<rparr>"
  by (auto simp: poke_def Let_def)

lemma of_nat_64_inj:
  "j < 2 ^ 64 \<Longrightarrow> k < 2 ^ 64 \<Longrightarrow> (of_nat j :: 64 word) = of_nat k \<Longrightarrow> j = k"
  by (simp add: word_of_nat_eq_iff take_bit_nat_eq_self)

lemma same_fields_refl: "same_fields b b"
  by (simp add: same_fields_def)

lemma same_fields_trans: "same_fields b b1 \<Longrightarrow> same_fields b1 b2 \<Longrightarrow> same_fields b b2"
  by (simp add: same_fields_def)

lemma same_fields_rng: "same_fields b (b\<lparr>rng_' := g\<rparr>)"
  by (simp add: same_fields_def)

lemma poke_same_fields: "poke b p v = Inr b' \<Longrightarrow> same_fields b b' \<and> rng_' b' = rng_' b"
  by (auto simp: poke_Inr_iff same_fields_def)

lemma stamp_keeps:
  "stamp pat msk off j b = Inr b' \<Longrightarrow> same_fields b b' \<and> rng_' b' = rng_' b"
proof (induction pat msk off j b rule: stamp.induct)
  case (1 pattern masks offset j b)
  show ?case
  proof (cases "j < length pattern")
    case False
    then show ?thesis using "1.prems" by (subst (asm) stamp.simps) (simp add: same_fields_refl)
  next
    case lt: True
    show ?thesis
    proof (cases "masks ! j \<noteq> CHR ''?''")
      case False
      then have "stamp pattern masks offset (j + 1) b = Inr b'"
        using "1.prems" lt by (subst (asm) stamp.simps) simp
      then show ?thesis using "1.IH"(2) lt False by simp
    next
      case True
      then obtain b1 where p: "poke b (data_' b + (offset + of_nat j)) (pattern ! j) = Inr b1"
        and r: "stamp pattern masks offset (j + 1) b1 = Inr b'"
        using "1.prems" lt by (subst (asm) stamp.simps) (auto split: sum.splits)
      have "same_fields b1 b' \<and> rng_' b' = rng_' b1"
        using "1.IH"(1) [OF lt True p r] .
      then show ?thesis using poke_same_fields [OF p] same_fields_trans by metis
    qed
  qed
qed

lemma stamp_elsewhere:
  "stamp pat msk off j b = Inr b' \<Longrightarrow>
     (\<forall>k. j \<le> k \<and> k < length pat \<and> msk ! k \<noteq> CHR ''?''
          \<longrightarrow> at \<noteq> data_' b + (off + of_nat k) - raw_data_' b) \<Longrightarrow>
     cells (region b') at = cells (region b) at"
proof (induction pat msk off j b rule: stamp.induct)
  case (1 pattern masks offset j b)
  show ?case
  proof (cases "j < length pattern")
    case False
    then show ?thesis using "1.prems" by (subst (asm) stamp.simps) simp
  next
    case lt: True
    show ?thesis
    proof (cases "masks ! j \<noteq> CHR ''?''")
      case False
      then have "stamp pattern masks offset (j + 1) b = Inr b'"
        using "1.prems" lt by (subst (asm) stamp.simps) simp
      then show ?thesis using "1.IH"(2) [OF lt] False "1.prems"(2) by simp
    next
      case True
      then obtain b1 where p: "poke b (data_' b + (offset + of_nat j)) (pattern ! j) = Inr b1"
        and r: "stamp pattern masks offset (j + 1) b1 = Inr b'"
        using "1.prems" lt by (subst (asm) stamp.simps) (auto split: sum.splits)
      have same: "data_' b1 = data_' b" "raw_data_' b1 = raw_data_' b"
        using p by (auto simp: poke_Inr_iff)
      have "cells (region b') at = cells (region b1) at"
        using "1.IH"(1) [OF lt True p r] "1.prems"(2) same by simp
      moreover have "at \<noteq> data_' b + (offset + of_nat j) - raw_data_' b"
        using "1.prems"(2) lt True by simp
      ultimately show ?thesis using p by (simp add: poke_Inr_iff)
    qed
  qed
qed

lemma stamp_written:
  "stamp pat msk off j b = Inr b' \<Longrightarrow> length pat < 2 ^ 64 \<Longrightarrow>
     j \<le> k \<Longrightarrow> k < length pat \<Longrightarrow> msk ! k \<noteq> CHR ''?'' \<Longrightarrow>
     cells (region b') (data_' b + (off + of_nat k) - raw_data_' b) = pat ! k"
proof (induction pat msk off j b rule: stamp.induct)
  case (1 pattern masks offset j b)
  have lt: "j < length pattern" using "1.prems" by simp
  show ?case
  proof (cases "masks ! j \<noteq> CHR ''?''")
    case False
    then have r: "stamp pattern masks offset (j + 1) b = Inr b'"
      using "1.prems" lt by (subst (asm) stamp.simps) simp
    have "j \<noteq> k" using False "1.prems" by auto
    then show ?thesis using "1.IH"(2) [OF lt _ r] False "1.prems" by simp
  next
    case True
    then obtain b1 where p: "poke b (data_' b + (offset + of_nat j)) (pattern ! j) = Inr b1"
      and r: "stamp pattern masks offset (j + 1) b1 = Inr b'"
      using "1.prems" lt by (subst (asm) stamp.simps) (auto split: sum.splits)
    have same: "data_' b1 = data_' b" "raw_data_' b1 = raw_data_' b"
      using p by (auto simp: poke_Inr_iff)
    show ?thesis
    proof (cases "j = k")
      case False
      then show ?thesis using "1.IH"(1) [OF lt True p r] "1.prems" same by simp
    next
      case jk: True
      have "\<forall>k'. j + 1 \<le> k' \<and> k' < length pattern \<and> masks ! k' \<noteq> CHR ''?''
          \<longrightarrow> data_' b + (offset + of_nat j) - raw_data_' b
                \<noteq> data_' b1 + (offset + of_nat k') - raw_data_' b1"
      proof (intro allI impI)
        fix k' assume k': "j + 1 \<le> k' \<and> k' < length pattern \<and> masks ! k' \<noteq> CHR ''?''"
        then have "(of_nat j :: 64 word) \<noteq> of_nat k'"
          using of_nat_64_inj [of j k'] "1.prems"(2) lt by auto
        then show "data_' b + (offset + of_nat j) - raw_data_' b
                \<noteq> data_' b1 + (offset + of_nat k') - raw_data_' b1"
          using same by simp
      qed
      then have "cells (region b') (data_' b + (offset + of_nat j) - raw_data_' b)
          = cells (region b1) (data_' b + (offset + of_nat j) - raw_data_' b)"
        using stamp_elsewhere [OF r] by blast
      then show ?thesis using p jk by (simp add: poke_Inr_iff)
    qed
  qed
qed

lemma stamp_all_keeps:
  "stamp_all lib bound i n b = Inr b' \<Longrightarrow> same_fields b b'"
proof (induction lib bound i n b rule: stamp_all.induct)
  case (1 lib bound i result_count b)
  show ?case
  proof (cases "i < result_count")
    case False
    then show ?thesis using "1.prems" by (subst (asm) stamp_all.simps) (simp add: same_fields_refl)
  next
    case lt: True
    obtain offset g where u: "uniform_int_distribution lib 0 bound (rng_' b) = (offset, g)"
      by (cases "uniform_int_distribution lib 0 bound (rng_' b)")
    obtain b1 where s: "stamp (pattern_' b) (masks_' b) (of_nat offset) 0 (b\<lparr>rng_' := g\<rparr>) = Inr b1"
      and r: "stamp_all lib bound (i + 1) result_count b1 = Inr b'"
      using "1.prems" lt u by (subst (asm) stamp_all.simps) (auto split: sum.splits)
    have "same_fields b1 b'"
      using "1.IH" [OF lt u [symmetric] refl s r] .
    moreover have "same_fields (b\<lparr>rng_' := g\<rparr>) b1"
      using stamp_keeps [OF s] by simp
    ultimately show ?thesis using same_fields_rng [of b g] same_fields_trans by blast
  qed
qed

lemma generate_Inr:
  assumes "generate lib b = Some (Inr b')"
  obtains variation g1 pattern_length g2 pattern masks g3
  where "uniform_int_distribution lib 0 100 (rng_' b) = (variation, g1)"
    and "uniform_int_distribution lib 5 32 g1 = (pattern_length, g2)"
    and "mask_loop lib pattern_length
           (resize pattern_length 0 (pattern_' b), resize pattern_length (CHR 0x00) (masks_' b), True, g2)
         = Some (pattern, masks, g3)"
    and "pattern_' b' = pattern" and "masks_' b' = masks"
    and "data_' b' = full_data_' b + of_nat variation"
    and "size_' b' = full_size_' b - of_nat variation"
proof -
  obtain variation g1 where u1: "uniform_int_distribution lib 0 100 (rng_' b) = (variation, g1)"
    by (cases "uniform_int_distribution lib 0 100 (rng_' b)")
  obtain pattern_length g2 where u2: "uniform_int_distribution lib 5 32 g1 = (pattern_length, g2)"
    by (cases "uniform_int_distribution lib 5 32 g1")
  obtain pattern masks g3 where ml: "mask_loop lib pattern_length
           (resize pattern_length 0 (pattern_' b), resize pattern_length (CHR 0x00) (masks_' b), True, g2)
         = Some (pattern, masks, g3)"
    using assms u1 u2 by (auto simp: generate_def split: option.splits)
  obtain result_count g4 where u3: "uniform_int_distribution lib 2 10 g3 = (result_count, g4)"
    by (cases "uniform_int_distribution lib 2 10 g3")
  let ?b2 = "b\<lparr>data_' := full_data_' b + of_nat variation,
                 size_' := full_size_' b - of_nat variation, rng_' := g4,
                 pattern_' := pattern, masks_' := masks\<rparr>"
  obtain b3 results where sa: "stamp_all lib (unat (size_' ?b2 - of_nat (length (pattern_' ?b2)))) 0 result_count ?b2 = Inr b3"
    and b': "b' = b3\<lparr>expected_' := shift_results b3 results\<rparr>"
    using assms u1 u2 ml u3 by (auto simp: generate_def split: sum.splits)
  have "same_fields ?b2 b3" using stamp_all_keeps [OF sa] .
  then have "pattern_' b' = pattern" "masks_' b' = masks"
    "data_' b' = full_data_' b + of_nat variation" "size_' b' = full_size_' b - of_nat variation"
    using b' by (simp_all add: same_fields_def)
  then show ?thesis using that u1 u2 ml by blast
qed


lemma length_resize: "length (resize n d xs) = n"
  by (simp add: resize_def)

text \<open>
  C5. A pattern that \<open>generate\<close> emits is never all wildcards: it has a position with
  mask \<open>'x'\<close>, and every position is \<open>'x'\<close> or \<open>'?'\<close> with pattern byte 0. A pass
  of the mask loop that drew only wildcards is followed by another pass over the whole
  pattern, from index 0.
\<close>

theorem generate_never_all_wildcard:
  "(\<forall>b'. generate lib b = Some (Inr b') \<longrightarrow>
      length (pattern_' b') = length (masks_' b') \<and>
      (\<exists>i<length (masks_' b'). masks_' b' ! i = CHR ''x'') \<and>
      (\<forall>i<length (masks_' b').
          masks_' b' ! i = CHR ''x'' \<or> masks_' b' ! i = CHR ''?'' \<and> pattern_' b' ! i = 0)) \<and>
   (\<forall>pattern masks g pattern1 masks1 all1 g1.
      length pattern = n \<and> length masks = n \<and>
      mask_pass lib 0 n (pattern, masks, True, g) = (pattern1, masks1, all1, g1) \<and>
      (\<forall>i<n. masks1 ! i = CHR ''?'') \<longrightarrow>
      mask_loop lib n (pattern, masks, True, g) = mask_loop lib n (pattern1, masks1, True, g1))"
proof (intro conjI allI impI)
  fix b'
  assume gen: "generate lib b = Some (Inr b')"
  then obtain pattern_length g2 g3 where
    "mask_loop lib pattern_length
       (resize pattern_length 0 (pattern_' b), resize pattern_length (CHR 0x00) (masks_' b), True, g2)
     = Some (pattern_' b', masks_' b', g3)"
    by (elim generate_Inr) auto
  then have wm: "well_masked pattern_length (pattern_' b') (masks_' b')"
    using mask_loop_well_masked by (fastforce simp: length_resize)
  show "length (pattern_' b') = length (masks_' b')"
    using wm by (simp add: well_masked_def)
  show "\<exists>i<length (masks_' b'). masks_' b' ! i = CHR ''x''"
    using wm by (simp add: well_masked_def)
  show "\<And>i. i < length (masks_' b') \<Longrightarrow>
      masks_' b' ! i = CHR ''x'' \<or> masks_' b' ! i = CHR ''?'' \<and> pattern_' b' ! i = 0"
    using wm by (simp add: well_masked_def)
next
  fix pattern masks g pattern1 masks1 all1 g1
  assume a: "length pattern = n \<and> length masks = n \<and>
      mask_pass lib 0 n (pattern, masks, True, g) = (pattern1, masks1, all1, g1) \<and>
      (\<forall>i<n. masks1 ! i = CHR ''?'')"
  then have pass: "mask_pass lib 0 n (pattern, masks, True, g) = (pattern1, masks1, all1, g1)"
    and len: "length pattern = n" "length masks = n" by simp_all
  have all1 using mask_pass_props [OF pass len] a by simp
  then show "mask_loop lib n (pattern, masks, True, g) = mask_loop lib n (pattern1, masks1, True, g1)"
    using pass by (subst mask_loop.simps) simp
qed

theorem generate_never_all_wildcard_witness:
  "\<exists>b'. generate scripted
          (small_bench [2, 0, 9, 9, 9, 9, 9, 0, 65, 9, 0, 66, 0, 67, 9, 0, 1, 9]) = Some (Inr b') \<and>
        masks_' b' = ''x?xx?'' \<and> pattern_' b' = [65, 0, 66, 67, 0] \<and>
        length (pattern_' b') = length (masks_' b') \<and>
        (\<exists>i<length (masks_' b'). masks_' b' ! i = CHR ''x'')"
proof -
  let ?b = "small_bench [2, 0, 9, 9, 9, 9, 9, 0, 65, 9, 0, 66, 0, 67, 9, 0, 1, 9]"
  have "case generate scripted ?b of
          Some (Inr b') \<Rightarrow> masks_' b' = ''x?xx?'' \<and> pattern_' b' = [65, 0, 66, 67, 0]
        | _ \<Rightarrow> False"
    by code_simp
  then obtain b' where g: "generate scripted ?b = Some (Inr b')"
    and m: "masks_' b' = ''x?xx?''" "pattern_' b' = [65, 0, 66, 67, 0]"
    by (auto split: option.splits sum.splits)
  have "length (pattern_' b') = length (masks_' b') \<and>
      (\<exists>i<length (masks_' b'). masks_' b' ! i = CHR ''x'')"
    using generate_never_all_wildcard [of scripted ?b 5] g by blast
  then show ?thesis using g m by blast
qed


lemma stamp_access:
  "stamp pat msk off j b = Inr b' \<Longrightarrow> j \<le> k \<Longrightarrow> k < length pat \<Longrightarrow> msk ! k \<noteq> CHR ''?'' \<Longrightarrow>
     access (region b) (data_' b + (off + of_nat k) - raw_data_' b) = Some RW"
proof (induction pat msk off j b rule: stamp.induct)
  case (1 pattern masks offset j b)
  have lt: "j < length pattern" using "1.prems" by simp
  show ?case
  proof (cases "masks ! j \<noteq> CHR ''?''")
    case False
    then have r: "stamp pattern masks offset (j + 1) b = Inr b'"
      using "1.prems" lt by (subst (asm) stamp.simps) simp
    have "j \<noteq> k" using False "1.prems" by auto
    then show ?thesis using "1.IH"(2) [OF lt _ r] False "1.prems" by simp
  next
    case True
    then obtain b1 where p: "poke b (data_' b + (offset + of_nat j)) (pattern ! j) = Inr b1"
      and r: "stamp pattern masks offset (j + 1) b1 = Inr b'"
      using "1.prems" lt by (subst (asm) stamp.simps) (auto split: sum.splits)
    show ?thesis
    proof (cases "j = k")
      case False
      then have "access (region b1) (data_' b1 + (offset + of_nat k) - raw_data_' b1) = Some RW"
        using "1.IH"(1) [OF lt True p r] "1.prems" by simp
      then show ?thesis using p by (auto simp: poke_Inr_iff)
    next
      case True
      then show ?thesis using p by (simp add: poke_Inr_iff)
    qed
  qed
qed

text \<open>
  C8. One stamp at an offset stores the pattern byte at \<open>data_[offset + j]\<close> for the
  positions \<open>j\<close> whose mask is \<open>'x'\<close> and nothing else: the bytes at the wildcard
  positions, every byte at another address, the page protections and all other members
  keep the value they had before the stamp. (The masks of a generated pattern are
  \<open>'x'\<close> or \<open>'?'\<close> throughout, by C5.)
\<close>

theorem stamp_overwrites_only_fixed:
  assumes run: "stamp pattern masks offset 0 b = Inr b'"
    and len: "length pattern < 2 ^ 64"
    and msk: "\<forall>j<length pattern. masks ! j = CHR ''x'' \<or> masks ! j = CHR ''?''"
  shows "(\<forall>j<length pattern. masks ! j = CHR ''x'' \<longrightarrow>
            peek b' (data_' b + (offset + of_nat j)) = Some (pattern ! j)) \<and>
         (\<forall>j<length pattern. masks ! j = CHR ''?'' \<longrightarrow>
            peek b' (data_' b + (offset + of_nat j)) = peek b (data_' b + (offset + of_nat j))) \<and>
         (\<forall>p. (\<forall>j<length pattern. masks ! j = CHR ''x'' \<longrightarrow> p \<noteq> data_' b + (offset + of_nat j))
            \<longrightarrow> peek b' p = peek b p) \<and>
         same_fields b b' \<and> rng_' b' = rng_' b"
proof -
  have keep: "same_fields b b'" "rng_' b' = rng_' b"
    using stamp_keeps [OF run] by simp_all
  then have acc: "access (region b') = access (region b)" "raw_data_' b' = raw_data_' b"
    by (simp_all add: same_fields_def)
  have fixed: "peek b' (data_' b + (offset + of_nat j)) = Some (pattern ! j)"
    if "j < length pattern" "masks ! j = CHR ''x''" for j
    using stamp_written [OF run len, of j] stamp_access [OF run, of j] that acc
    by (simp add: peek_def Let_def)
  have other: "peek b' p = peek b p"
    if "\<forall>j<length pattern. masks ! j = CHR ''x'' \<longrightarrow> p \<noteq> data_' b + (offset + of_nat j)" for p
  proof -
    have "\<forall>k. 0 \<le> k \<and> k < length pattern \<and> masks ! k \<noteq> CHR ''?''
        \<longrightarrow> p - raw_data_' b \<noteq> data_' b + (offset + of_nat k) - raw_data_' b"
      using that msk by auto
    then have "cells (region b') (p - raw_data_' b) = cells (region b) (p - raw_data_' b)"
      using stamp_elsewhere [OF run] by blast
    then show ?thesis using acc by (simp add: peek_def Let_def)
  qed
  have wild: "peek b' (data_' b + (offset + of_nat j)) = peek b (data_' b + (offset + of_nat j))"
    if "j < length pattern" "masks ! j = CHR ''?''" for j
  proof (rule other, intro allI impI)
    fix k assume k: "k < length pattern" "masks ! k = CHR ''x''"
    then have "k \<noteq> j" using that by auto
    then have "(of_nat j :: 64 word) \<noteq> of_nat k"
      using of_nat_64_inj [of j k] len that k by auto
    then show "data_' b + (offset + of_nat j) \<noteq> data_' b + (offset + of_nat k)" by simp
  qed
  show ?thesis using fixed wild other keep by blast
qed

theorem stamp_overwrites_only_fixed_witness:
  "\<exists>b'. stamp [65, 0, 66] ''x?x'' 3 0 ((small_bench [])\<lparr>data_' := 4106, size_' := 22\<rparr>) = Inr b' \<and>
     map (peek b') [4108, 4109, 4110, 4111, 4112] = [Some 0, Some 65, Some 0, Some 66, Some 0] \<and>
     peek b' 4111 = Some ([65, 0, 66] ! 2) \<and>
     peek b' 4110 = peek ((small_bench [])\<lparr>data_' := 4106, size_' := 22\<rparr>) 4110"
proof -
  let ?b = "(small_bench [])\<lparr>data_' := 4106, size_' := 22\<rparr>"
  have ev: "case stamp [65, 0, 66] ''x?x'' 3 0 ?b of
          Inr b' \<Rightarrow> map (peek b') [4108, 4109, 4110, 4111, 4112]
                      = [Some 0, Some 65, Some 0, Some 66, Some 0]
        | Inl f \<Rightarrow> False"
    by code_simp
  obtain b' where s: "stamp [65, 0, 66] ''x?x'' 3 0 ?b = Inr b'"
    using ev by (cases "stamp [65, 0, 66] ''x?x'' 3 0 ?b") simp_all
  have m: "map (peek b') [4108, 4109, 4110, 4111, 4112] = [Some 0, Some 65, Some 0, Some 66, Some 0]"
    using ev unfolding s by (simp only: sum.case)
  have h1: "length [65, 0, 66 :: byte] < 2 ^ 64" by simp
  have h2: "\<forall>j<length [65, 0, 66 :: byte]. ''x?x'' ! j = CHR ''x'' \<or> ''x?x'' ! j = CHR ''?''"
    by (simp add: less_Suc_eq numeral_3_eq_3)
  have d: "data_' ?b = 4106" by simp
  note frame = stamp_overwrites_only_fixed [OF s h1 h2]
  have "peek b' (data_' ?b + (3 + of_nat 2)) = Some ([65, 0, 66] ! 2)"
    by (rule frame [THEN conjunct1, rule_format, of 2]) simp_all
  then have f: "peek b' 4111 = Some ([65, 0, 66] ! 2)"
    by (simp only: d) simp
  have "peek b' (data_' ?b + (3 + of_nat 1)) = peek ?b (data_' ?b + (3 + of_nat 1))"
    by (rule frame [THEN conjunct2, THEN conjunct1, rule_format, of 1]) simp_all
  then have w: "peek b' 4110 = peek ?b 4110"
    by (simp only: d) simp
  show ?thesis
    by (rule exI [of _ b']) (intro conjI s m f w)
qed

end
